theory Spec2Isabelle
  imports Complex_Main
begin

section \<open>The routing core of SendinBeatsAudioDriver.c\<close>

text \<open>
  The driver keeps two global structures: the table \<open>gMappings\<close> with its fill count
  \<open>gMappingCount\<close>, and the bank \<open>gChannelBuffers\<close> of per-channel sample buffers.
  Three functions write them (\<open>MapPIDToChannel\<close>, \<open>UnmapPID\<close>, \<open>RouteAudioToChannel\<close>)
  and one reads the bank (\<open>PlugIn_DoIOOperation\<close>). Each access to a structure happens
  with that structure's mutex held, so a call is modelled as one step on the state.

  Integers: \<open>pid_t\<close> and the C \<open>int\<close> fields are only compared and stored, never
  computed with, so they are \<open>int\<close>; \<open>gMappingCount\<close> only counts up from 0 to
  \<open>MAX_PID_MAPPINGS\<close> and is a \<open>nat\<close>; the \<open>UInt32\<close> frame size is a \<open>nat\<close>.
  Samples: the C \<open>float\<close> is a type \<open>'a\<close> with the zero that \<open>memset\<close> writes and the
  addition that \<open>+=\<close> performs. Binary32 addition rounds and is not associative, so a
  mixed sample is always the additions in the order of the loop, and a property names
  every law of addition that it uses.
\<close>

subsection \<open>Constants\<close>

definition MAX_CHANNELS :: nat where
  "MAX_CHANNELS = 16"

definition MAX_PID_MAPPINGS :: nat where
  "MAX_PID_MAPPINGS = 64"

definition BUFFER_FRAMES :: nat where
  "BUFFER_FRAMES = 1024"

subsection \<open>Data\<close>

type_synonym pid_t = int

record PIDMapping =
  pid :: pid_t
  channel :: int
  active :: int

text \<open>What the three \<open>printf\<close> calls of the routing functions write.\<close>

datatype log_line =
  Updated pid_t int
  | Added pid_t int
  | Unmapped pid_t

record 'a driver =
  gMappings :: "PIDMapping list"
  gMappingCount :: nat
  gChannelBuffers :: "'a list list"
  stdout :: "log_line list"

datatype OSStatus =
  kAudioHardwareNoError
  | kAudioHardwareUnsupportedOperationError
  | kAudioHardwareBadObjectError

text \<open>
  \<open>memcpy\<close> and the mixing loop go through caller-supplied pointers. A caller buffer is
  the list of samples that may be accessed behind the pointer; an access beyond it, or
  a \<open>memcpy\<close> whose \<open>int\<close> length is negative (it becomes a huge \<open>size_t\<close>), is
  undefined behaviour in C and the value \<open>BadAccess\<close> here.
\<close>

datatype fault = BadAccess

text \<open>
  The static arrays have their declared sizes, and the count stays within the table.
\<close>

definition table_ok :: "('a, 'b) driver_scheme \<Rightarrow> bool" where
  "table_ok s \<longleftrightarrow>
     length (gMappings s) = MAX_PID_MAPPINGS \<and> gMappingCount s \<le> MAX_PID_MAPPINGS"

definition bank_ok :: "('a, 'b) driver_scheme \<Rightarrow> bool" where
  "bank_ok s \<longleftrightarrow>
     length (gChannelBuffers s) = MAX_CHANNELS \<and>
     list_all (\<lambda>b. length b = BUFFER_FRAMES) (gChannelBuffers s)"

text \<open>
  The state at load time. The statics are zero-initialised, \<open>gMappingCount\<close> by its
  initialiser, and \<open>AudioDriverPlugInOpen\<close> clears both arrays once more before any
  routing call.
\<close>

definition initial_driver :: "'a::zero driver" where
  "initial_driver =
     \<lparr>gMappings = replicate MAX_PID_MAPPINGS \<lparr>pid = 0, channel = 0, active = 0\<rparr>,
      gMappingCount = 0,
      gChannelBuffers = replicate MAX_CHANNELS (replicate BUFFER_FRAMES 0),
      stdout = []\<rparr>"

subsection \<open>The table\<close>

text \<open>The slots the loops look at: indices below \<open>gMappingCount\<close>.\<close>

definition used :: "('a, 'b) driver_scheme \<Rightarrow> PIDMapping list" where
  "used s = take (gMappingCount s) (gMappings s)"

text \<open>
  The scan of \<open>MapPIDToChannel\<close> and \<open>UnmapPID\<close>: the first index whose \<open>pid\<close> matches,
  whatever its \<open>active\<close> flag.
\<close>

fun find_pid :: "pid_t \<Rightarrow> PIDMapping list \<Rightarrow> nat \<Rightarrow> nat option" where
  "find_pid p [] i = None"
| "find_pid p (m # ms) i = (if pid m = p then Some i else find_pid p ms (Suc i))"

definition MapPIDToChannel :: "pid_t \<Rightarrow> int \<Rightarrow> 'a driver \<Rightarrow> 'a driver" where
  "MapPIDToChannel p c s =
     (case find_pid p (used s) 0 of
        Some i \<Rightarrow>
          s\<lparr>gMappings := (gMappings s)[i := (gMappings s ! i)\<lparr>channel := c, active := 1\<rparr>],
            stdout := stdout s @ [Updated p c]\<rparr>
      | None \<Rightarrow>
          if gMappingCount s < MAX_PID_MAPPINGS then
            s\<lparr>gMappings := (gMappings s)[gMappingCount s := \<lparr>pid = p, channel = c, active = 1\<rparr>],
              gMappingCount := Suc (gMappingCount s),
              stdout := stdout s @ [Added p c]\<rparr>
          else s)"

definition UnmapPID :: "pid_t \<Rightarrow> 'a driver \<Rightarrow> 'a driver" where
  "UnmapPID p s =
     (case find_pid p (used s) 0 of
        Some i \<Rightarrow>
          s\<lparr>gMappings := (gMappings s)[i := (gMappings s ! i)\<lparr>active := 0\<rparr>],
            stdout := stdout s @ [Unmapped p]\<rparr>
      | None \<Rightarrow> s)"

text \<open>
  The scan of \<open>RouteAudioToChannel\<close>: the channel of the first slot whose \<open>pid\<close> matches
  and whose \<open>active\<close> is non-zero, and \<open>-1\<close> when the loop ends without one.
\<close>

fun find_channel :: "pid_t \<Rightarrow> PIDMapping list \<Rightarrow> int" where
  "find_channel p [] = - 1"
| "find_channel p (m # ms) =
     (if pid m = p \<and> active m \<noteq> 0 then channel m else find_channel p ms)"

subsection \<open>Deposit\<close>

definition RouteAudioToChannel ::
  "pid_t \<Rightarrow> 'a list \<Rightarrow> int \<Rightarrow> 'a driver \<Rightarrow> fault + 'a driver" where
  "RouteAudioToChannel p buffer frames0 s =
     (let frames = (if frames0 > int BUFFER_FRAMES then int BUFFER_FRAMES else frames0);
          ch = find_channel p (used s)
      in if 0 \<le> ch \<and> ch < int MAX_CHANNELS then
           (if frames < 0 \<or> int (length buffer) < frames then Inl BadAccess
            else Inr (s\<lparr>gChannelBuffers := (gChannelBuffers s)
                    [nat ch := take (nat frames) buffer
                               @ drop (nat frames) (gChannelBuffers s ! nat ch)]\<rparr>))
         else Inr s)"

subsection \<open>Mix\<close>

text \<open>The inner loop: \<open>outputBuffer[i] += gChannelBuffers[ch][i]\<close> for \<open>i < framesToCopy\<close>.\<close>

definition mix_channel :: "'a::plus list \<Rightarrow> nat \<Rightarrow> 'a list \<Rightarrow> 'a list" where
  "mix_channel chbuf framesToCopy outputBuffer =
     fold (\<lambda>i out. out[i := out ! i + chbuf ! i]) [0..<framesToCopy] outputBuffer"

text \<open>The outer loop: channels \<open>0\<close> up to \<open>k\<close>, in order.\<close>

definition mix_all :: "'a::plus list list \<Rightarrow> nat \<Rightarrow> nat \<Rightarrow> 'a list \<Rightarrow> 'a list" where
  "mix_all bufs framesToCopy k outputBuffer =
     fold (\<lambda>ch out. mix_channel (bufs ! ch) framesToCopy out) [0..<k] outputBuffer"

text \<open>The clamp of the \<open>UInt32\<close> frame size to the buffer length.\<close>

definition framesToCopy :: "nat \<Rightarrow> nat" where
  "framesToCopy inIOBufferFrameSize =
     (if inIOBufferFrameSize < BUFFER_FRAMES then inIOBufferFrameSize else BUFFER_FRAMES)"

text \<open>
  \<open>ioMainBuffer\<close> is \<open>None\<close> for the null pointer. The result is the status and the
  output buffer as the call leaves it; the driver state is only read.
\<close>

definition PlugIn_DoIOOperation ::
  "nat \<Rightarrow> 'a::{zero,plus} list option \<Rightarrow> 'a driver \<Rightarrow> fault + (OSStatus \<times> 'a list option)" where
  "PlugIn_DoIOOperation inIOBufferFrameSize ioMainBuffer s =
     (case ioMainBuffer of
        None \<Rightarrow> Inr (kAudioHardwareNoError, None)
      | Some outputBuffer \<Rightarrow>
          let n = framesToCopy inIOBufferFrameSize
          in if length outputBuffer < n then Inl BadAccess
             else Inr (kAudioHardwareNoError,
                    Some (mix_all (gChannelBuffers s) n MAX_CHANNELS
                            (replicate n 0 @ drop n outputBuffer))))"

subsection \<open>The interface\<close>

text \<open>
  The specification's \<open>Register\<close> is \<open>MapPIDToChannel\<close>, \<open>Unregister\<close> is \<open>UnmapPID\<close>,
  \<open>Deposit\<close> is \<open>RouteAudioToChannel\<close> and \<open>Produce\<close> is \<open>PlugIn_DoIOOperation\<close>.
  The specification gives \<open>Register\<close> the result \<open>Result<(), TableFull>\<close>. The C function
  is declared \<open>void\<close> and has no other channel back to its caller: every call returns
  normally, which is \<open>Inr ()\<close>.
\<close>

datatype register_error = TableFull

definition Register :: "pid_t \<Rightarrow> int \<Rightarrow> 'a driver \<Rightarrow> (register_error + unit) \<times> 'a driver" where
  "Register p c s = (Inr (), MapPIDToChannel p c s)"

text \<open>
  Sequences of calls. A call that faults ends the run; \<open>PlugIn_DoIOOperation\<close> leaves
  the driver state as it is.
\<close>

datatype 'a operation =
  DoRegister pid_t int
  | DoUnregister pid_t
  | DoDeposit pid_t "'a list" int
  | DoProduce nat "'a list option"

fun step :: "'a::{zero,plus} operation \<Rightarrow> 'a driver \<Rightarrow> fault + 'a driver" where
  "step (DoRegister p c) s = Inr (MapPIDToChannel p c s)"
| "step (DoUnregister p) s = Inr (UnmapPID p s)"
| "step (DoDeposit p buffer frames) s = RouteAudioToChannel p buffer frames s"
| "step (DoProduce n out) s =
     (case PlugIn_DoIOOperation n out s of Inl f \<Rightarrow> Inl f | Inr r \<Rightarrow> Inr s)"

fun run :: "'a::{zero,plus} operation list \<Rightarrow> 'a driver \<Rightarrow> fault + 'a driver" where
  "run [] s = Inr s"
| "run (x # xs) s = (case step x s of Inl f \<Rightarrow> Inl f | Inr s' \<Rightarrow> run xs s')"

text \<open>A sequence of registrations, each a process identifier with its channel.\<close>

fun register_all :: "(pid_t \<times> int) list \<Rightarrow> 'a driver \<Rightarrow> 'a driver" where
  "register_all [] s = s"
| "register_all ((p, c) # rs) s = register_all rs (MapPIDToChannel p c s)"

subsection \<open>Notions for stating the properties\<close>

text \<open>
  The process identifiers in the used slots, the used slots of one process, and those
  of them that are active.
\<close>

definition pids :: "('a, 'b) driver_scheme \<Rightarrow> pid_t list" where
  "pids s = map pid (used s)"

definition entries :: "pid_t \<Rightarrow> ('a, 'b) driver_scheme \<Rightarrow> PIDMapping list" where
  "entries p s = filter (\<lambda>m. pid m = p) (used s)"

definition active_entries :: "pid_t \<Rightarrow> ('a, 'b) driver_scheme \<Rightarrow> PIDMapping list" where
  "active_entries p s = filter (\<lambda>m. pid m = p \<and> active m \<noteq> 0) (used s)"

text \<open>What the table keeps: its shape, and one slot at most for a process.\<close>

definition table_inv :: "('a, 'b) driver_scheme \<Rightarrow> bool" where
  "table_inv s \<longleftrightarrow> table_ok s \<and> distinct (pids s)"

text \<open>The number of samples that \<open>RouteAudioToChannel\<close> copies for a frame count.\<close>

definition clamp_frames :: "int \<Rightarrow> nat" where
  "clamp_frames frames = nat (if frames > int BUFFER_FRAMES then int BUFFER_FRAMES else frames)"

text \<open>A sample of a channel buffer at the end of a run, if the run did not fault.\<close>

definition channel_sample :: "nat \<Rightarrow> nat \<Rightarrow> fault + 'a driver \<Rightarrow> 'a option" where
  "channel_sample ch i r = (case r of Inl f \<Rightarrow> None | Inr s \<Rightarrow> Some (gChannelBuffers s ! ch ! i))"


text \<open>The slot that a registration writes.\<close>

definition new_mapping :: "pid_t \<times> int \<Rightarrow> PIDMapping" where
  "new_mapping r = \<lparr>pid = fst r, channel = snd r, active = 1\<rparr>"

text \<open>The used slots after the first slot of process \<open>p\<close>, if any, went through \<open>f\<close>.\<close>

fun set_first :: "pid_t \<Rightarrow> (PIDMapping \<Rightarrow> PIDMapping) \<Rightarrow> PIDMapping list \<Rightarrow> PIDMapping list" where
  "set_first p f [] = []"
| "set_first p f (m # ms) = (if pid m = p then f m # ms else m # set_first p f ms)"

section \<open>Properties of the mix\<close>

lemma mix_channel_length: "length (mix_channel b n out) = length out"
  unfolding mix_channel_def by (induction n arbitrary: out) simp_all

lemma mix_channel_nth:
  "i < length out \<Longrightarrow>
     mix_channel b n out ! i = (if i < n then out ! i + b ! i else out ! i)"
  unfolding mix_channel_def
proof (induction n)
  case 0
  then show ?case by simp
next
  case (Suc n)
  have len: "length (fold (\<lambda>i out. out[i := out ! i + b ! i]) [0..<n] out) = length out"
    using mix_channel_length [of b n out] by (simp add: mix_channel_def)
  show ?case using Suc len by (auto simp: nth_list_update less_Suc_eq)
qed

lemma mix_all_length: "length (mix_all bufs n k out) = length out"
  unfolding mix_all_def by (induction k) (simp_all add: mix_channel_length)

text \<open>
  Sample \<open>i\<close> of the output after channels \<open>0..<k\<close>: the additions happen in channel
  order onto what the sample held before. No law of addition is used.
\<close>

lemma mix_all_nth:
  "i < length out \<Longrightarrow>
     mix_all bufs n k out ! i =
       (if i < n then foldl (+) (out ! i) (map (\<lambda>ch. bufs ! ch ! i) [0..<k]) else out ! i)"
proof (induction k)
  case 0
  then show ?case by (simp add: mix_all_def)
next
  case (Suc k)
  have step: "mix_all bufs n (Suc k) out = mix_channel (bufs ! k) n (mix_all bufs n k out)"
    by (simp add: mix_all_def)
  show ?case using Suc by (simp add: step mix_channel_nth mix_all_length)
qed

lemma DoIO_null: "PlugIn_DoIOOperation n None s = Inr (kAudioHardwareNoError, None)"
  by (simp add: PlugIn_DoIOOperation_def)

lemma DoIO_Some:
  assumes "framesToCopy n \<le> length out"
  shows "PlugIn_DoIOOperation n (Some out) s =
     Inr (kAudioHardwareNoError,
       Some (mix_all (gChannelBuffers s) (framesToCopy n) MAX_CHANNELS
         (replicate (framesToCopy n) 0 @ drop (framesToCopy n) out)))"
  using assms by (simp add: PlugIn_DoIOOperation_def Let_def)

text \<open>The mixed sample as the C computes it, for any sample type.\<close>

lemma mixed_nth_foldl:
  assumes "framesToCopy n \<le> length out" and "i < framesToCopy n"
  shows "mix_all bufs (framesToCopy n) k
           (replicate (framesToCopy n) 0 @ drop (framesToCopy n) out) ! i =
         foldl (+) 0 (map (\<lambda>ch. bufs ! ch ! i) [0..<k])"
  using assms by (simp add: mix_all_nth nth_append)

lemma mixed_rest:
  assumes "framesToCopy n \<le> i" and "i < length out"
  shows "mix_all bufs (framesToCopy n) k
           (replicate (framesToCopy n) 0 @ drop (framesToCopy n) out) ! i = out ! i"
  using assms by (simp add: mix_all_nth nth_append)

lemma bank_ok_initial: "bank_ok initial_driver"
  by (simp add: bank_ok_def initial_driver_def list_all_iff)

text \<open>
  C2. For every state of the bank and every frame count \<open>n\<close>, with an output buffer
  that holds the \<open>min n BUFFER_FRAMES\<close> frames the call writes, \<open>PlugIn_DoIOOperation\<close>
  returns \<open>kAudioHardwareNoError\<close>, and every output sample below \<open>min n BUFFER_FRAMES\<close>
  is the sum of all \<open>MAX_CHANNELS\<close> channels' samples at the same index as the loop takes
  it: from zero, adding channel \<open>0\<close>, then \<open>1\<close>, up to the last, with the samples' own
  addition, whatever the channels hold and with nothing clipped. No law of addition is
  assumed. The rest of the output buffer is left as it was, and with a null output
  buffer the call returns \<open>kAudioHardwareNoError\<close> as well.
\<close>

theorem Produce_sums_all_channels:
  fixes s :: "'a::{zero,plus} driver"
  assumes "bank_ok s" and "min n BUFFER_FRAMES \<le> length out"
  shows "PlugIn_DoIOOperation n None s = Inr (kAudioHardwareNoError, None) \<and>
         (\<exists>out'. PlugIn_DoIOOperation n (Some out) s = Inr (kAudioHardwareNoError, Some out') \<and>
           length out' = length out \<and>
           (\<forall>i<min n BUFFER_FRAMES.
              out' ! i = foldl (+) 0 (map (\<lambda>ch. gChannelBuffers s ! ch ! i) [0..<MAX_CHANNELS])) \<and>
           (\<forall>i<length out. min n BUFFER_FRAMES \<le> i \<longrightarrow> out' ! i = out ! i))"
proof -
  have m: "min n BUFFER_FRAMES = framesToCopy n"
    by (simp add: framesToCopy_def min_def)
  with assms have le: "framesToCopy n \<le> length out" by simp
  show ?thesis
    unfolding m DoIO_Some [OF le] DoIO_null
    using le by (simp add: mix_all_length mixed_nth_foldl mixed_rest)
qed

text \<open>
  For evaluating concrete banks only: the mix of a bank that is zero but for one
  channel, at samples whose addition is exact (the reals of the examples).
\<close>

lemma foldl_plus_sum:
  fixes f :: "nat \<Rightarrow> 'a::comm_monoid_add"
  shows "foldl (+) a (map f [0..<k]) = a + (\<Sum>ch<k. f ch)"
  by (induction k) (simp_all add: add.assoc)

lemma sum_one_channel:
  fixes x :: "'a::comm_monoid_add" and M :: nat
  assumes "c < M"
  shows "(\<Sum>ch<M. if ch = c then x else 0) = x"
  using assms by simp

lemma one_channel_mixed:
  fixes b :: "'a::comm_monoid_add list"
  assumes "c < MAX_CHANNELS" and "i < BUFFER_FRAMES"
  shows "foldl (+) 0
           (map (\<lambda>ch. (replicate MAX_CHANNELS (replicate BUFFER_FRAMES 0))[c := b] ! ch ! i)
              [0..<MAX_CHANNELS])
         = b ! i"
proof -
  have "(\<Sum>ch<MAX_CHANNELS. (replicate MAX_CHANNELS (replicate BUFFER_FRAMES (0::'a)))[c := b] ! ch ! i)
      = (\<Sum>ch<MAX_CHANNELS. if ch = c then b ! i else 0)"
    using assms(2) by (intro sum.cong) (auto simp: nth_list_update)
  also have "\<dots> = b ! i" using assms(1) by (rule sum_one_channel)
  finally show ?thesis by (simp add: foldl_plus_sum)
qed

theorem Produce_sums_all_channels_witness:
  "bank_ok ((initial_driver :: real driver)
     \<lparr>gChannelBuffers := (replicate MAX_CHANNELS (replicate BUFFER_FRAMES 0))
        [3 := [5, 6] @ replicate (BUFFER_FRAMES - 2) 0]\<rparr>) \<and>
   min 2 BUFFER_FRAMES \<le> length [1, 1, 9 :: real] \<and>
   (\<exists>out'. PlugIn_DoIOOperation 2 (Some [1, 1, 9])
              ((initial_driver :: real driver)
                 \<lparr>gChannelBuffers := (replicate MAX_CHANNELS (replicate BUFFER_FRAMES 0))
                    [3 := [5, 6] @ replicate (BUFFER_FRAMES - 2) 0]\<rparr>)
              = Inr (kAudioHardwareNoError, Some out') \<and>
           length out' = 3 \<and> out' ! 0 = 5 \<and> out' ! 1 = 6 \<and> out' ! 2 = 9)"
proof -
  let ?b = "[5, 6] @ replicate (BUFFER_FRAMES - 2) (0::real)"
  let ?B = "(replicate MAX_CHANNELS (replicate BUFFER_FRAMES (0::real)))[3 := ?b]"
  let ?s = "(initial_driver :: real driver)\<lparr>gChannelBuffers := ?B\<rparr>"
  have c: "3 < MAX_CHANNELS" by (simp add: MAX_CHANNELS_def)
  have lb: "length ?b = BUFFER_FRAMES" by (simp add: BUFFER_FRAMES_def)
  have b: "bank_ok ?s"
    unfolding bank_ok_def list_all_length using c lb
    by (auto simp: nth_list_update simp del: length_append)
  have l: "min 2 BUFFER_FRAMES \<le> length [1, 1, 9 :: real]" by (simp add: BUFFER_FRAMES_def)
  have g: "gChannelBuffers ?s = ?B" by simp
  have i0: "(0::nat) < BUFFER_FRAMES" and i1: "(1::nat) < BUFFER_FRAMES"
    by (simp_all add: BUFFER_FRAMES_def)
  have v0: "foldl (+) 0 (map (\<lambda>ch. gChannelBuffers ?s ! ch ! 0) [0..<MAX_CHANNELS]) = ?b ! 0"
    unfolding g by (rule one_channel_mixed [OF c i0])
  have v1: "foldl (+) 0 (map (\<lambda>ch. gChannelBuffers ?s ! ch ! 1) [0..<MAX_CHANNELS]) = ?b ! 1"
    unfolding g by (rule one_channel_mixed [OF c i1])
  from Produce_sums_all_channels [OF b l] obtain out' where
    o: "PlugIn_DoIOOperation 2 (Some [1, 1, 9]) ?s = Inr (kAudioHardwareNoError, Some out')"
      "length out' = length [1, 1, 9 :: real]"
      "\<forall>i<min 2 BUFFER_FRAMES.
          out' ! i = foldl (+) 0 (map (\<lambda>ch. gChannelBuffers ?s ! ch ! i) [0..<MAX_CHANNELS])"
      "\<forall>i<length [1, 1, 9 :: real]. min 2 BUFFER_FRAMES \<le> i \<longrightarrow> out' ! i = [1, 1, 9] ! i"
    by blast
  have m: "min 2 BUFFER_FRAMES = 2" by (simp add: BUFFER_FRAMES_def)
  have "0 < min 2 BUFFER_FRAMES" "1 < min 2 BUFFER_FRAMES" by (simp_all add: m)
  with o(3) have
    e0: "out' ! 0 = foldl (+) 0 (map (\<lambda>ch. gChannelBuffers ?s ! ch ! 0) [0..<MAX_CHANNELS])"
    and e1: "out' ! 1 = foldl (+) 0 (map (\<lambda>ch. gChannelBuffers ?s ! ch ! 1) [0..<MAX_CHANNELS])"
    by blast+
  have "out' ! 0 = ?b ! 0" using e0 v0 by (rule trans)
  moreover have "out' ! 1 = ?b ! 1" using e1 v1 by (rule trans)
  ultimately have "out' ! 0 = 5" "out' ! 1 = 6" by simp_all
  moreover from o(4) have "out' ! 2 = 9" by (simp add: m)
  ultimately show ?thesis using b l o(1,2) by simp
qed

section \<open>Properties of the table\<close>

lemma find_pid_None: "find_pid p ms i = None \<longleftrightarrow> p \<notin> pid ` set ms"
  by (induction ms arbitrary: i) auto

lemma find_pid_Some:
  "find_pid p ms k = Some i \<Longrightarrow>
     k \<le> i \<and> i - k < length ms \<and> ms[i - k := f (ms ! (i - k))] = set_first p f ms"
proof (induction ms arbitrary: k)
  case Nil
  then show ?case by simp
next
  case (Cons m ms)
  show ?case
  proof (cases "pid m = p")
    case True
    with Cons.prems show ?thesis by simp
  next
    case False
    with Cons.prems have "find_pid p ms (Suc k) = Some i" by simp
    from Cons.IH [OF this] have
      "Suc k \<le> i" "i - Suc k < length ms"
      "ms[i - Suc k := f (ms ! (i - Suc k))] = set_first p f ms"
      by auto
    moreover from \<open>Suc k \<le> i\<close> have "i - k = Suc (i - Suc k)" by simp
    ultimately show ?thesis using False by simp
  qed
qed

lemma find_pid_Some0:
  assumes "find_pid p ms 0 = Some i"
  shows "i < length ms" and "ms[i := f (ms ! i)] = set_first p f ms"
  using find_pid_Some [OF assms, of f] by simp_all

lemma set_first_absent: "p \<notin> pid ` set ms \<Longrightarrow> set_first p f ms = ms"
  by (induction ms) auto

lemma used_update:
  assumes "find_pid p (used s) 0 = Some i"
  shows "take (gMappingCount s) ((gMappings s)[i := f (gMappings s ! i)]) = set_first p f (used s)"
proof -
  from find_pid_Some0 [OF assms]
  have i: "i < length (used s)" and eq: "(used s)[i := f (used s ! i)] = set_first p f (used s)"
    by blast+
  from i have "i < gMappingCount s" by (simp add: used_def)
  then have "used s ! i = gMappings s ! i" by (simp add: used_def)
  with eq show ?thesis by (simp add: used_def take_update_swap)
qed

lemma used_MapPIDToChannel:
  assumes "table_ok s"
  shows "used (MapPIDToChannel p c s) =
     (if p \<in> set (pids s) then set_first p (\<lambda>m. m\<lparr>channel := c, active := 1\<rparr>) (used s)
      else if gMappingCount s < MAX_PID_MAPPINGS then used s @ [new_mapping (p, c)]
      else used s)"
proof (cases "find_pid p (used s) 0")
  case None
  then have "p \<notin> set (pids s)" by (simp add: find_pid_None pids_def)
  moreover have "gMappingCount s < MAX_PID_MAPPINGS \<Longrightarrow>
      take (Suc (gMappingCount s)) ((gMappings s)[gMappingCount s := v]) = used s @ [v]" for v
    using assms by (simp add: table_ok_def used_def take_Suc_conv_app_nth)
  ultimately show ?thesis using None
    by (simp add: MapPIDToChannel_def new_mapping_def) (simp add: used_def)
next
  case (Some i)
  then have "p \<in> set (pids s)"
    using find_pid_None [of p "used s" 0] by (simp add: pids_def)
  then show ?thesis using Some used_update [OF Some]
    by (simp add: MapPIDToChannel_def) (simp add: used_def)
qed

lemma used_UnmapPID:
  "used (UnmapPID p s) = set_first p (\<lambda>m. m\<lparr>active := 0\<rparr>) (used s)"
proof (cases "find_pid p (used s) 0")
  case None
  then have "p \<notin> pid ` set (used s)" by (simp add: find_pid_None)
  then show ?thesis using None by (simp add: UnmapPID_def set_first_absent)
next
  case (Some i)
  then show ?thesis using used_update [OF Some]
    by (simp add: UnmapPID_def) (simp add: used_def)
qed

lemma count_MapPIDToChannel:
  "gMappingCount (MapPIDToChannel p c s) =
     (if p \<notin> set (pids s) \<and> gMappingCount s < MAX_PID_MAPPINGS
      then Suc (gMappingCount s) else gMappingCount s)"
  using find_pid_None [of p "used s" 0]
  by (auto simp: MapPIDToChannel_def pids_def split: option.splits)

lemma MapPIDToChannel_full:
  assumes "p \<notin> set (pids s)" and "\<not> gMappingCount s < MAX_PID_MAPPINGS"
  shows "MapPIDToChannel p c s = s"
  using assms find_pid_None [of p "used s" 0]
  by (simp add: MapPIDToChannel_def pids_def)

lemma table_ok_MapPIDToChannel: "table_ok s \<Longrightarrow> table_ok (MapPIDToChannel p c s)"
  by (auto simp: MapPIDToChannel_def table_ok_def split: option.splits)

lemma table_ok_UnmapPID: "table_ok s \<Longrightarrow> table_ok (UnmapPID p s)"
  by (auto simp: UnmapPID_def table_ok_def split: option.splits)

lemma bank_MapPIDToChannel: "gChannelBuffers (MapPIDToChannel p c s) = gChannelBuffers s"
  by (simp add: MapPIDToChannel_def split: option.splits)

lemma bank_UnmapPID: "gChannelBuffers (UnmapPID p s) = gChannelBuffers s"
  by (simp add: UnmapPID_def split: option.splits)

lemma map_pid_set_first:
  "(\<And>m. pid (f m) = pid m) \<Longrightarrow> map pid (set_first p f ms) = map pid ms"
  by (induction ms) simp_all

lemma pids_MapPIDToChannel:
  assumes "table_ok s"
  shows "pids (MapPIDToChannel p c s) =
     (if p \<notin> set (pids s) \<and> gMappingCount s < MAX_PID_MAPPINGS then pids s @ [p] else pids s)"
  using used_MapPIDToChannel [OF assms, of p c]
  by (auto simp: pids_def map_pid_set_first new_mapping_def)

lemma pids_UnmapPID: "pids (UnmapPID p s) = pids s"
  by (simp add: pids_def used_UnmapPID map_pid_set_first)

lemma distinct_MapPIDToChannel:
  "table_ok s \<Longrightarrow> distinct (pids s) \<Longrightarrow> distinct (pids (MapPIDToChannel p c s))"
  by (simp add: pids_MapPIDToChannel)

subsection \<open>What the scans find\<close>

lemma find_channel_absent: "p \<notin> pid ` set ms \<Longrightarrow> find_channel p ms = - 1"
  by (induction ms) auto

lemma find_channel_set_first_on:
  "p \<in> pid ` set ms \<Longrightarrow>
     find_channel p (set_first p (\<lambda>m. m\<lparr>channel := c, active := 1\<rparr>) ms) = c"
  by (induction ms) auto

lemma find_channel_append_new:
  "p \<notin> pid ` set ms \<Longrightarrow> find_channel p (ms @ [new_mapping (p, c)]) = c"
  by (induction ms) (auto simp: new_mapping_def)

lemma find_channel_MapPIDToChannel:
  assumes "table_ok s" and "p \<in> set (pids s) \<or> gMappingCount s < MAX_PID_MAPPINGS"
  shows "find_channel p (used (MapPIDToChannel p c s)) = c"
  using assms(2)
  by (auto simp: used_MapPIDToChannel [OF assms(1)] pids_def
      find_channel_set_first_on find_channel_append_new)

lemma entries_set_first:
  "distinct (map pid ms) \<Longrightarrow> p \<in> pid ` set ms \<Longrightarrow>
     filter (\<lambda>m. pid m = p) (set_first p (\<lambda>m. m\<lparr>channel := c, active := 1\<rparr>) ms)
       = [new_mapping (p, c)]"
proof (induction ms)
  case Nil
  then show ?case by simp
next
  case (Cons m ms)
  show ?case
  proof (cases "pid m = p")
    case True
    with Cons.prems have "p \<notin> pid ` set ms" by auto
    then have "filter (\<lambda>m. pid m = p) ms = []" by (auto simp: filter_empty_conv)
    with True show ?thesis by (simp add: new_mapping_def)
  next
    case False
    with Cons show ?thesis by auto
  qed
qed

lemma entries_append_new:
  "p \<notin> pid ` set ms \<Longrightarrow>
     filter (\<lambda>m. pid m = p) (ms @ [new_mapping (p, c)]) = [new_mapping (p, c)]"
  by (auto simp: filter_empty_conv new_mapping_def)

lemma active_entries_conv:
  "active_entries p s = filter (\<lambda>m. active m \<noteq> 0) (entries p s)"
  by (simp add: active_entries_def entries_def conj_commute)

lemma entries_MapPIDToChannel:
  assumes "table_ok s" and "distinct (pids s)"
    and "p \<in> set (pids s) \<or> gMappingCount s < MAX_PID_MAPPINGS"
  shows "entries p (MapPIDToChannel p c s) = [new_mapping (p, c)]"
proof (cases "p \<in> set (pids s)")
  case True
  then show ?thesis using assms(2)
    by (simp add: entries_def used_MapPIDToChannel [OF assms(1)] pids_def entries_set_first)
next
  case False
  with assms(3) have lt: "gMappingCount s < MAX_PID_MAPPINGS" by simp
  from False have "filter (\<lambda>m. pid m = p) (used s @ [new_mapping (p, c)]) = [new_mapping (p, c)]"
    by (intro entries_append_new) (simp add: pids_def)
  with False lt show ?thesis
    by (simp only: entries_def used_MapPIDToChannel [OF assms(1)] if_False if_True)
qed

lemma pid_in_MapPIDToChannel:
  assumes "table_ok s" and "p \<in> set (pids s) \<or> gMappingCount s < MAX_PID_MAPPINGS"
  shows "p \<in> set (pids (MapPIDToChannel p c s))"
  using assms(2) by (auto simp: pids_MapPIDToChannel [OF assms(1)])

lemma table_ok_initial: "table_ok initial_driver"
  by (simp add: table_ok_def initial_driver_def)

lemma used_initial: "used initial_driver = []"
  by (simp add: used_def initial_driver_def)

lemma pids_initial: "pids initial_driver = []"
  by (simp add: pids_def used_initial)

lemma count_initial: "gMappingCount initial_driver = 0"
  by (simp add: initial_driver_def)

lemma register_all_fresh:
  assumes "table_ok s" and "distinct (map fst rs)" and "fst ` set rs \<inter> set (pids s) = {}"
    and "gMappingCount s + length rs \<le> MAX_PID_MAPPINGS"
  shows "used (register_all rs s) = used s @ map new_mapping rs \<and>
         gMappingCount (register_all rs s) = gMappingCount s + length rs \<and>
         table_ok (register_all rs s)"
  using assms
proof (induction rs arbitrary: s)
  case Nil
  then show ?case by simp
next
  case (Cons r rs)
  obtain p c where r: "r = (p, c)" by (cases r)
  let ?s = "MapPIDToChannel p c s"
  from Cons.prems r have fresh: "p \<notin> set (pids s)" and lt: "gMappingCount s < MAX_PID_MAPPINGS"
    by auto
  have u: "used ?s = used s @ [new_mapping (p, c)]"
    using fresh lt by (simp add: used_MapPIDToChannel [OF Cons.prems(1)])
  have n: "gMappingCount ?s = Suc (gMappingCount s)"
    using fresh lt by (simp add: count_MapPIDToChannel)
  have ps: "pids ?s = pids s @ [p]"
    using fresh lt by (simp add: pids_MapPIDToChannel [OF Cons.prems(1)])
  have "used (register_all rs ?s) = used ?s @ map new_mapping rs \<and>
        gMappingCount (register_all rs ?s) = gMappingCount ?s + length rs \<and>
        table_ok (register_all rs ?s)"
  proof (rule Cons.IH)
    show "table_ok ?s" using Cons.prems(1) by (rule table_ok_MapPIDToChannel)
    show "distinct (map fst rs)" using Cons.prems(2) by simp
    show "fst ` set rs \<inter> set (pids ?s) = {}" using Cons.prems(2,3) r by (auto simp: ps)
    show "gMappingCount ?s + length rs \<le> MAX_PID_MAPPINGS" using Cons.prems(4) by (simp add: n)
  qed
  then show ?case by (simp add: r u n)
qed

lemma register_all_initial:
  fixes rs :: "(pid_t \<times> int) list"
  assumes "distinct (map fst rs)" and "length rs \<le> MAX_PID_MAPPINGS"
  shows "used (register_all rs (initial_driver :: 'a::zero driver)) = map new_mapping rs"
    and "gMappingCount (register_all rs (initial_driver :: 'a::zero driver)) = length rs"
    and "table_ok (register_all rs (initial_driver :: 'a::zero driver))"
  using register_all_fresh [of "initial_driver :: 'a driver" rs] assms
  by (simp_all add: table_ok_initial pids_initial used_initial count_initial)

lemma find_channel_new:
  "distinct (map fst rs) \<Longrightarrow> r \<in> set rs \<Longrightarrow>
     find_channel (fst r) (map new_mapping rs) = snd r"
proof (induction rs)
  case Nil
  then show ?case by simp
next
  case (Cons a rs)
  then show ?case by (auto simp: new_mapping_def rev_image_eqI)
qed

lemma pid_new_mapping: "pid \<circ> new_mapping = fst"
  by (auto simp: new_mapping_def)

lemma unrouted:
  assumes "p \<notin> set (pids s)"
  shows "find_channel p (used s) = - 1" and "active_entries p s = []"
  using assms by (auto simp: pids_def find_channel_absent active_entries_def filter_empty_conv)

text \<open>
  C1, as the code has it. Registering \<open>MAX_PID_MAPPINGS\<close> distinct processes from the
  initial table succeeds call by call: after \<open>k\<close> calls the used slots are exactly the
  first \<open>k\<close> registrations, all active, and in the end every one of them is routed to
  its channel. The registration of one more distinct process returns normally, with no
  error, and changes nothing (no slot written, nothing printed); that process is left
  unrouted: the scan finds no channel and no active entry for it.
\<close>

theorem registrations_fill_the_table:
  fixes rs :: "(pid_t \<times> int) list"
  assumes "length rs = MAX_PID_MAPPINGS" and "distinct (map fst rs)" and "p \<notin> set (map fst rs)"
  shows "(\<forall>k\<le>MAX_PID_MAPPINGS.
            used (register_all (take k rs) (initial_driver :: 'a::zero driver))
              = map new_mapping (take k rs)) \<and>
         (\<forall>r\<in>set rs. find_channel (fst r)
            (used (register_all rs (initial_driver :: 'a driver))) = snd r) \<and>
         Register p c (register_all rs (initial_driver :: 'a driver))
           = (Inr (), register_all rs initial_driver) \<and>
         find_channel p (used (register_all rs (initial_driver :: 'a driver))) = - 1 \<and>
         active_entries p (register_all rs (initial_driver :: 'a driver)) = []"
proof -
  let ?s = "register_all rs (initial_driver :: 'a driver)"
  have u: "used ?s = map new_mapping rs" and n: "gMappingCount ?s = MAX_PID_MAPPINGS"
    using register_all_initial [of rs] assms(1,2) by simp_all
  have ps: "pids ?s = map fst rs" by (simp add: pids_def u pid_new_mapping)
  with assms(3) have fresh: "p \<notin> set (pids ?s)" by simp
  have "used (register_all (take k rs) (initial_driver :: 'a driver))
          = map new_mapping (take k rs)" if "k \<le> MAX_PID_MAPPINGS" for k
    using assms(1,2) that by (intro register_all_initial) (simp_all add: take_map [symmetric])
  moreover have "find_channel (fst r) (used ?s) = snd r" if "r \<in> set rs" for r
    using assms(2) that by (simp add: u find_channel_new)
  moreover have "Register p c ?s = (Inr (), ?s)"
    using fresh n by (simp add: Register_def MapPIDToChannel_full)
  ultimately show ?thesis using unrouted [OF fresh] by blast
qed

lemma first_pids:
  "length (zip (map int [0..<64]) (replicate 64 (0::int))) = MAX_PID_MAPPINGS"
  "distinct (map fst (zip (map int [0..<64]) (replicate 64 (0::int))))"
  "64 \<notin> set (map fst (zip (map int [0..<64]) (replicate 64 (0::int))))"
proof -
  have m: "map fst (zip (map int [0..<64]) (replicate 64 (0::int))) = map int [0..<64]"
    by (rule map_fst_zip) simp
  show "length (zip (map int [0..<64]) (replicate 64 (0::int))) = MAX_PID_MAPPINGS"
    by (simp add: MAX_PID_MAPPINGS_def)
  show "distinct (map fst (zip (map int [0..<64]) (replicate 64 (0::int))))"
    unfolding m by (simp add: distinct_map inj_on_def)
  show "64 \<notin> set (map fst (zip (map int [0..<64]) (replicate 64 (0::int))))"
    unfolding m by auto
qed

theorem registrations_fill_the_table_witness:
  "length (zip (map int [0..<64]) (replicate 64 (0::int))) = MAX_PID_MAPPINGS \<and>
   distinct (map fst (zip (map int [0..<64]) (replicate 64 (0::int)))) \<and>
   64 \<notin> set (map fst (zip (map int [0..<64]) (replicate 64 (0::int)))) \<and>
   used (register_all (take 2 (zip (map int [0..<64]) (replicate 64 0)))
          (initial_driver :: real driver))
     = [\<lparr>pid = 0, channel = 0, active = 1\<rparr>, \<lparr>pid = 1, channel = 0, active = 1\<rparr>] \<and>
   find_channel 64 (used (register_all (zip (map int [0..<64]) (replicate 64 0))
          (initial_driver :: real driver))) = - 1"
proof -
  define Z where "Z = zip (map int [0..<64]) (replicate 64 (0::int))"
  have Z: "length Z = MAX_PID_MAPPINGS" "distinct (map fst Z)" "64 \<notin> set (map fst Z)"
    unfolding Z_def by (rule first_pids)+
  have t: "take 2 Z = [(0, 0), (1, 0)]"
    unfolding Z_def
    by (simp add: take_zip take_map numeral_2_eq_2 upt_rec [of 0] upt_rec [of 1] upt_rec [of "Suc 0"])
  have k: "(2::nat) \<le> MAX_PID_MAPPINGS" by (simp add: MAX_PID_MAPPINGS_def)
  from registrations_fill_the_table [OF Z, where 'a = real] have
    a: "\<forall>k\<le>MAX_PID_MAPPINGS.
          used (register_all (take k Z) (initial_driver :: real driver))
            = map new_mapping (take k Z)"
    and b: "find_channel 64 (used (register_all Z (initial_driver :: real driver))) = - 1"
    by blast+
  from a k have "used (register_all (take 2 Z) (initial_driver :: real driver))
      = map new_mapping (take 2 Z)"
    by blast
  then have "used (register_all (take 2 Z) (initial_driver :: real driver))
      = [\<lparr>pid = 0, channel = 0, active = 1\<rparr>, \<lparr>pid = 1, channel = 0, active = 1\<rparr>]"
    by (simp add: t new_mapping_def)
  with b Z show ?thesis unfolding Z_def by blast
qed

text \<open>
  C1 as stated fails: with processes \<open>0\<close> to \<open>63\<close> registered, registering process \<open>64\<close>
  hands the caller the normal return, not \<open>TableFull\<close>, and leaves the state untouched.
\<close>

theorem Register_full_counterexample:
  "Register 64 0 (register_all (zip (map int [0..<64]) (replicate 64 0))
       (initial_driver :: real driver))
     = (Inr (), register_all (zip (map int [0..<64]) (replicate 64 0)) initial_driver)"
proof -
  let ?s = "register_all (zip (map int [0..<64]) (replicate 64 0)) (initial_driver :: real driver)"
  have "used ?s = map new_mapping (zip (map int [0..<64]) (replicate 64 0))"
    and n: "gMappingCount ?s = MAX_PID_MAPPINGS"
    using register_all_initial [of "zip (map int [0..<64]) (replicate 64 0)"] first_pids(1,2)
    by simp_all
  then have "pids ?s = map fst (zip (map int [0..<64]) (replicate 64 (0::int)))"
    by (simp add: pids_def pid_new_mapping)
  with first_pids(3) have "64 \<notin> set (pids ?s)" by metis
  with n show ?thesis by (simp add: Register_def MapPIDToChannel_full)
qed

lemma active_entries_MapPIDToChannel:
  assumes "table_ok s" and "distinct (pids s)"
    and "p \<in> set (pids s) \<or> gMappingCount s < MAX_PID_MAPPINGS"
  shows "active_entries p (MapPIDToChannel p c s) = [new_mapping (p, c)]"
  using entries_MapPIDToChannel [OF assms]
  by (simp add: active_entries_conv new_mapping_def)

text \<open>
  C4, as the code has it. From a table in which no process has two slots, and in which
  \<open>p\<close> has a slot already or a free slot is left, \<open>Register(p, c1)\<close> then
  \<open>Register(p, c2)\<close> leaves exactly one slot for \<open>p\<close>; it is active and its channel is
  \<open>c2\<close>, which is also what the routing scan finds: nothing of \<open>c1\<close> is kept.
\<close>

theorem Register_twice:
  assumes "table_ok s" and "distinct (pids s)"
    and "p \<in> set (pids s) \<or> gMappingCount s < MAX_PID_MAPPINGS"
  shows "active_entries p (MapPIDToChannel p c2 (MapPIDToChannel p c1 s))
           = [\<lparr>pid = p, channel = c2, active = 1\<rparr>] \<and>
         entries p (MapPIDToChannel p c2 (MapPIDToChannel p c1 s))
           = [\<lparr>pid = p, channel = c2, active = 1\<rparr>] \<and>
         find_channel p (used (MapPIDToChannel p c2 (MapPIDToChannel p c1 s))) = c2"
proof -
  let ?s = "MapPIDToChannel p c1 s"
  have t: "table_ok ?s" using assms(1) by (rule table_ok_MapPIDToChannel)
  have d: "distinct (pids ?s)" using assms(1,2) by (rule distinct_MapPIDToChannel)
  have i: "p \<in> set (pids ?s) \<or> gMappingCount ?s < MAX_PID_MAPPINGS"
    using pid_in_MapPIDToChannel [OF assms(1,3)] by simp
  show ?thesis
    using active_entries_MapPIDToChannel [OF t d i, of c2] entries_MapPIDToChannel [OF t d i, of c2]
      find_channel_MapPIDToChannel [OF t i, of c2]
    by (simp add: new_mapping_def)
qed

theorem Register_twice_witness:
  "table_ok (initial_driver :: real driver) \<and>
   distinct (pids (initial_driver :: real driver)) \<and>
   (7 \<in> set (pids (initial_driver :: real driver)) \<or>
    gMappingCount (initial_driver :: real driver) < MAX_PID_MAPPINGS) \<and>
   active_entries 7 (MapPIDToChannel 7 5 (MapPIDToChannel 7 3 (initial_driver :: real driver)))
     = [\<lparr>pid = 7, channel = 5, active = 1\<rparr>]"
proof -
  have t: "table_ok (initial_driver :: real driver)" by (rule table_ok_initial)
  have d: "distinct (pids (initial_driver :: real driver))" by (simp add: pids_initial)
  have i: "7 \<in> set (pids (initial_driver :: real driver)) \<or>
    gMappingCount (initial_driver :: real driver) < MAX_PID_MAPPINGS"
    by (simp add: count_initial MAX_PID_MAPPINGS_def)
  from Register_twice [OF t d i, of 5 3] t d i show ?thesis by blast
qed

text \<open>
  C4 as stated fails on a full table: with processes \<open>0\<close> to \<open>63\<close> registered, registering
  process \<open>64\<close> twice leaves no active entry for it.
\<close>

theorem Register_twice_counterexample:
  "active_entries 64
     (MapPIDToChannel 64 2 (MapPIDToChannel 64 1
        (register_all (zip (map int [0..<64]) (replicate 64 0))
           (initial_driver :: real driver)))) = []"
proof -
  let ?s = "register_all (zip (map int [0..<64]) (replicate 64 0)) (initial_driver :: real driver)"
  have "used ?s = map new_mapping (zip (map int [0..<64]) (replicate 64 0))"
    and n: "gMappingCount ?s = MAX_PID_MAPPINGS"
    using register_all_initial [of "zip (map int [0..<64]) (replicate 64 0)"] first_pids(1,2)
    by simp_all
  then have "pids ?s = map fst (zip (map int [0..<64]) (replicate 64 (0::int)))"
    by (simp add: pids_def pid_new_mapping)
  with first_pids(3) have fresh: "64 \<notin> set (pids ?s)" by metis
  with n have "MapPIDToChannel 64 c ?s = ?s" for c by (simp add: MapPIDToChannel_full)
  then show ?thesis using unrouted(2) [OF fresh] by simp
qed

subsection \<open>Reachable states\<close>

lemma Route_table:
  assumes "RouteAudioToChannel p b n s = Inr s'"
  shows "gMappings s' = gMappings s" and "gMappingCount s' = gMappingCount s"
    and "stdout s' = stdout s"
  using assms by (auto simp: RouteAudioToChannel_def Let_def split: if_splits)

lemma Route_used:
  assumes "RouteAudioToChannel p b n s = Inr s'"
  shows "used s' = used s" and "pids s' = pids s" and "table_ok s' = table_ok s"
  using Route_table [OF assms] by (simp_all add: used_def pids_def table_ok_def)

lemma step_inv:
  assumes "table_inv s" and "step x s = Inr s'"
  shows "table_inv s'"
proof (cases x)
  case (DoRegister p c)
  with assms show ?thesis
    by (auto simp: table_inv_def table_ok_MapPIDToChannel distinct_MapPIDToChannel)
next
  case (DoUnregister p)
  with assms show ?thesis by (auto simp: table_inv_def table_ok_UnmapPID pids_UnmapPID)
next
  case (DoDeposit p b n)
  with assms show ?thesis by (auto simp: table_inv_def Route_used)
next
  case (DoProduce n out)
  with assms show ?thesis by (auto split: sum.splits)
qed

lemma run_inv: "table_inv s \<Longrightarrow> run xs s = Inr s' \<Longrightarrow> table_inv s'"
proof (induction xs arbitrary: s)
  case Nil
  then show ?case by simp
next
  case (Cons x xs)
  then show ?case by (auto split: sum.splits dest: step_inv)
qed

lemma table_inv_initial: "table_inv initial_driver"
  by (simp add: table_inv_def table_ok_initial pids_initial)

lemma distinct_filter_le_1:
  "distinct (map f xs) \<Longrightarrow> length (filter (\<lambda>x. f x = a) xs) \<le> Suc 0"
proof (induction xs)
  case Nil
  then show ?case by simp
next
  case (Cons x xs)
  show ?case
  proof (cases "f x = a")
    case True
    with Cons.prems have "a \<notin> f ` set xs" by simp
    then have "filter (\<lambda>x. f x = a) xs = []" by (auto simp: filter_empty_conv)
    with True show ?thesis by simp
  next
    case False
    with Cons show ?thesis by simp
  qed
qed

text \<open>
  C9. In every state reached from the initial state by a sequence of Register,
  Unregister, Deposit and Produce calls, no process identifier occurs in two used
  slots, active or not; so a process has at most one entry and at most one active
  entry. Registering a process that has a slot, whatever its active flag and however
  full the table is, reuses that slot: the count and the identifiers stay as they are,
  and the process ends with exactly one active entry, on the new channel.
\<close>

theorem one_entry_per_process:
  fixes s :: "'a::{zero,plus} driver"
  assumes "run xs initial_driver = Inr s"
  shows "table_ok s \<and> distinct (pids s) \<and>
         (\<forall>p. length (entries p s) \<le> 1 \<and> length (active_entries p s) \<le> 1) \<and>
         (\<forall>p\<in>set (pids s). \<forall>c.
            gMappingCount (MapPIDToChannel p c s) = gMappingCount s \<and>
            pids (MapPIDToChannel p c s) = pids s \<and>
            active_entries p (MapPIDToChannel p c s) = [\<lparr>pid = p, channel = c, active = 1\<rparr>] \<and>
            find_channel p (used (MapPIDToChannel p c s)) = c)"
proof -
  from run_inv [OF table_inv_initial assms] have t: "table_ok s" and d: "distinct (pids s)"
    by (simp_all add: table_inv_def)
  have e: "length (entries p s) \<le> 1" for p
    using d distinct_filter_le_1 [of pid "used s" p] by (simp add: entries_def pids_def)
  have a: "length (active_entries p s) \<le> 1" for p
  proof -
    have "length (active_entries p s) \<le> length (entries p s)"
      unfolding active_entries_conv by (rule length_filter_le)
    with e [of p] show ?thesis by linarith
  qed
  have r: "gMappingCount (MapPIDToChannel p c s) = gMappingCount s \<and>
           pids (MapPIDToChannel p c s) = pids s \<and>
           active_entries p (MapPIDToChannel p c s) = [\<lparr>pid = p, channel = c, active = 1\<rparr>] \<and>
           find_channel p (used (MapPIDToChannel p c s)) = c"
    if "p \<in> set (pids s)" for p c
    using that active_entries_MapPIDToChannel [OF t d, of p c]
      find_channel_MapPIDToChannel [OF t, of p c]
    by (simp add: count_MapPIDToChannel pids_MapPIDToChannel [OF t] new_mapping_def)
  from t d e a r show ?thesis by blast
qed

lemma pids_register_initial:
  "pids (MapPIDToChannel p c (initial_driver :: 'a::zero driver)) = [p]"
  using pids_MapPIDToChannel [of "initial_driver :: 'a driver" p c]
  by (simp add: table_ok_initial pids_initial count_initial MAX_PID_MAPPINGS_def)

theorem one_entry_per_process_witness:
  "run [DoRegister 7 3, DoUnregister 7, DoRegister 7 5] (initial_driver :: real driver)
     = Inr (MapPIDToChannel 7 5 (UnmapPID 7 (MapPIDToChannel 7 3 initial_driver))) \<and>
   7 \<in> set (pids (UnmapPID 7 (MapPIDToChannel 7 3 (initial_driver :: real driver)))) \<and>
   active_entries 7 (MapPIDToChannel 7 5 (UnmapPID 7 (MapPIDToChannel 7 3
       (initial_driver :: real driver)))) = [\<lparr>pid = 7, channel = 5, active = 1\<rparr>] \<and>
   length (entries 7 (UnmapPID 7 (MapPIDToChannel 7 3 (initial_driver :: real driver)))) \<le> 1"
proof -
  let ?s = "UnmapPID 7 (MapPIDToChannel 7 3 (initial_driver :: real driver))"
  have r: "run [DoRegister 7 3, DoUnregister 7] (initial_driver :: real driver) = Inr ?s"
    by simp
  have i: "7 \<in> set (pids ?s)" by (simp add: pids_UnmapPID pids_register_initial)
  from one_entry_per_process [OF r] i have
    "active_entries 7 (MapPIDToChannel 7 5 ?s) = [\<lparr>pid = 7, channel = 5, active = 1\<rparr>]"
    and "length (entries 7 ?s) \<le> 1"
    by blast+
  with i show ?thesis by simp
qed

section \<open>Properties of the deposit\<close>

lemma Route_dropped:
  assumes "\<not> (0 \<le> find_channel p (used s) \<and> find_channel p (used s) < int MAX_CHANNELS)"
  shows "RouteAudioToChannel p b n s = Inr s"
  using assms by (auto simp: RouteAudioToChannel_def Let_def)

lemma Route_stored:
  assumes "find_channel p (used s) = int ch" and "ch < MAX_CHANNELS"
    and "0 \<le> n" and "clamp_frames n \<le> length b"
  shows "RouteAudioToChannel p b n s =
     Inr (s\<lparr>gChannelBuffers := (gChannelBuffers s)
            [ch := take (clamp_frames n) b @ drop (clamp_frames n) (gChannelBuffers s ! ch)]\<rparr>)"
  using assms by (auto simp: RouteAudioToChannel_def Let_def clamp_frames_def)

lemma find_channel_inactive:
  "filter (\<lambda>m. pid m = p \<and> active m \<noteq> 0) ms = [] \<Longrightarrow> find_channel p ms = - 1"
  by (induction ms) (auto split: if_splits)

lemma active_entries_UnmapPID:
  assumes "distinct (pids s)"
  shows "active_entries p (UnmapPID p s) = []"
proof -
  have "distinct (map pid ms) \<Longrightarrow>
      filter (\<lambda>m. pid m = p \<and> active m \<noteq> 0) (set_first p (\<lambda>m. m\<lparr>active := 0\<rparr>) ms) = []" for ms
  proof (induction ms)
    case Nil
    then show ?case by simp
  next
    case (Cons m ms)
    show ?case
    proof (cases "pid m = p")
      case True
      with Cons.prems have "p \<notin> pid ` set ms" by auto
      with True show ?thesis by (auto simp: filter_empty_conv image_iff)
    next
      case False
      with Cons show ?thesis by simp
    qed
  qed
  with assms show ?thesis by (simp add: active_entries_def used_UnmapPID pids_def)
qed

lemma active_entries_initial: "active_entries p initial_driver = []"
  by (simp add: active_entries_def used_initial)

text \<open>
  C6. A deposit by a process with no active entry in the table (never registered, or
  unregistered: \<open>active_entries_initial\<close>, \<open>active_entries_UnmapPID\<close>) returns without a
  fault and leaves the whole state, so every channel buffer, as it was, whatever the
  chunk and the frame count; a Produce call gives the same result before and after.
\<close>

theorem unrouted_deposit_dropped:
  fixes s :: "'a::{zero,plus} driver"
  assumes "active_entries p s = []"
  shows "\<exists>s'. RouteAudioToChannel p S N s = Inr s' \<and> s' = s \<and>
           gChannelBuffers s' = gChannelBuffers s \<and>
           PlugIn_DoIOOperation n out s' = PlugIn_DoIOOperation n out s"
proof -
  from assms have "find_channel p (used s) = - 1"
    by (simp add: active_entries_def find_channel_inactive)
  then have "RouteAudioToChannel p S N s = Inr s" by (simp add: Route_dropped)
  then show ?thesis by simp
qed

theorem unrouted_deposit_dropped_witness:
  "active_entries 7 (UnmapPID 7 (MapPIDToChannel 7 3 (initial_driver :: real driver))) = [] \<and>
   RouteAudioToChannel 7 [1, 2] 2 (UnmapPID 7 (MapPIDToChannel 7 3 (initial_driver :: real driver)))
     = Inr (UnmapPID 7 (MapPIDToChannel 7 3 initial_driver))"
proof -
  let ?s = "UnmapPID 7 (MapPIDToChannel 7 3 (initial_driver :: real driver))"
  have a: "active_entries 7 ?s = []"
    by (rule active_entries_UnmapPID) (simp add: pids_register_initial)
  from unrouted_deposit_dropped [OF a, of "[1, 2]" 2] a show ?thesis by simp
qed

lemma Route_bank_ok:
  assumes "bank_ok s" and "RouteAudioToChannel p b n s = Inr s'"
  shows "bank_ok s'"
proof -
  have "length (take k b @ drop k old) = BUFFER_FRAMES"
    if "length old = BUFFER_FRAMES" "k \<le> length b" "k \<le> BUFFER_FRAMES" for k and old :: "'a list"
    using that by simp
  then show ?thesis using assms
    by (auto simp: RouteAudioToChannel_def Let_def bank_ok_def list_all_length nth_list_update
        split: if_splits)
qed

text \<open>The shapes that the properties assume hold in every state of a run.\<close>

lemma step_bank_ok:
  assumes "bank_ok s" and "step x s = Inr s'"
  shows "bank_ok s'"
proof (cases x)
  case (DoRegister p c)
  with assms show ?thesis by (auto simp: bank_ok_def bank_MapPIDToChannel)
next
  case (DoUnregister p)
  with assms show ?thesis by (auto simp: bank_ok_def bank_UnmapPID)
next
  case (DoDeposit p b n)
  with assms show ?thesis by (auto dest: Route_bank_ok)
next
  case (DoProduce n out)
  with assms show ?thesis by (auto split: sum.splits)
qed

lemma run_bank_ok: "bank_ok s \<Longrightarrow> run xs s = Inr s' \<Longrightarrow> bank_ok s'"
proof (induction xs arbitrary: s)
  case Nil
  then show ?case by simp
next
  case (Cons x xs)
  then show ?case by (auto split: sum.splits dest: step_bank_ok)
qed

lemma run_shapes:
  assumes "run xs initial_driver = Inr s"
  shows "table_ok s" and "bank_ok s"
  using run_inv [OF table_inv_initial assms] run_bank_ok [OF bank_ok_initial assms]
  by (simp_all add: table_inv_def)

text \<open>
  C3, as the code has it. A deposit of a chunk of \<open>n < BUFFER_FRAMES\<close> samples into a
  channel puts the chunk in the first \<open>n\<close> samples of that channel's buffer and leaves
  every sample from \<open>n\<close> to \<open>BUFFER_FRAMES\<close> as it was before the deposit; the other
  channels are not touched.
\<close>

theorem short_deposit_overwrites_prefix:
  assumes "bank_ok s" and "find_channel p (used s) = int ch" and "ch < MAX_CHANNELS"
    and "length S = n" and "n < BUFFER_FRAMES"
  shows "\<exists>s'. RouteAudioToChannel p S (int n) s = Inr s' \<and>
           length (gChannelBuffers s' ! ch) = BUFFER_FRAMES \<and>
           (\<forall>i<n. gChannelBuffers s' ! ch ! i = S ! i) \<and>
           (\<forall>i<BUFFER_FRAMES. n \<le> i \<longrightarrow> gChannelBuffers s' ! ch ! i = gChannelBuffers s ! ch ! i) \<and>
           (\<forall>c<MAX_CHANNELS. c \<noteq> ch \<longrightarrow> gChannelBuffers s' ! c = gChannelBuffers s ! c)"
proof -
  from assms(4,5) have c: "clamp_frames (int n) = n" by (simp add: clamp_frames_def)
  from assms(1,3) have l: "ch < length (gChannelBuffers s)"
    and b: "length (gChannelBuffers s ! ch) = BUFFER_FRAMES"
    by (simp_all add: bank_ok_def list_all_length)
  have "RouteAudioToChannel p S (int n) s =
     Inr (s\<lparr>gChannelBuffers := (gChannelBuffers s)[ch := take n S @ drop n (gChannelBuffers s ! ch)]\<rparr>)"
    using Route_stored [OF assms(2,3), of "int n" S] assms(4) by (simp add: c)
  then show ?thesis using l b assms(4,5) by (simp add: nth_append)
qed


lemma registered_initial:
  "find_channel p (used (MapPIDToChannel p c (initial_driver :: 'a::zero driver))) = c"
  "table_ok (MapPIDToChannel p c (initial_driver :: 'a::zero driver))"
  "bank_ok (MapPIDToChannel p c (initial_driver :: 'a::zero driver))"
  "gChannelBuffers (MapPIDToChannel p c (initial_driver :: 'a::zero driver))
     = replicate MAX_CHANNELS (replicate BUFFER_FRAMES 0)"
proof -
  show "find_channel p (used (MapPIDToChannel p c (initial_driver :: 'a driver))) = c"
    by (rule find_channel_MapPIDToChannel [OF table_ok_initial])
      (simp add: count_initial MAX_PID_MAPPINGS_def)
  show "table_ok (MapPIDToChannel p c (initial_driver :: 'a driver))"
    by (rule table_ok_MapPIDToChannel [OF table_ok_initial])
  show "bank_ok (MapPIDToChannel p c (initial_driver :: 'a driver))"
    using bank_ok_initial [where 'a = 'a] by (simp add: bank_ok_def bank_MapPIDToChannel)
  show "gChannelBuffers (MapPIDToChannel p c (initial_driver :: 'a driver))
     = replicate MAX_CHANNELS (replicate BUFFER_FRAMES 0)"
    by (simp add: bank_MapPIDToChannel) (simp add: initial_driver_def)
qed

theorem short_deposit_overwrites_prefix_witness:
  "bank_ok (MapPIDToChannel 7 3 (initial_driver :: real driver)) \<and>
   find_channel 7 (used (MapPIDToChannel 7 3 (initial_driver :: real driver))) = int 3 \<and>
   3 < MAX_CHANNELS \<and> length [5, 6 :: real] = 2 \<and> 2 < BUFFER_FRAMES \<and>
   (\<exists>s'. RouteAudioToChannel 7 [5, 6] (int 2) (MapPIDToChannel 7 3 (initial_driver :: real driver))
            = Inr s' \<and>
         gChannelBuffers s' ! 3 ! 0 = 5 \<and> gChannelBuffers s' ! 3 ! 1 = 6 \<and>
         gChannelBuffers s' ! 3 ! 2 = 0)"
proof -
  let ?s = "MapPIDToChannel 7 3 (initial_driver :: real driver)"
  have h: "bank_ok ?s" "find_channel 7 (used ?s) = int 3" "3 < MAX_CHANNELS"
    "length [5, 6 :: real] = 2" "2 < BUFFER_FRAMES"
    by (simp_all add: registered_initial MAX_CHANNELS_def BUFFER_FRAMES_def)
  from short_deposit_overwrites_prefix [OF h] obtain s' where
    r: "RouteAudioToChannel 7 [5, 6] (int 2) ?s = Inr s'"
    and a: "\<forall>i<2. gChannelBuffers s' ! 3 ! i = [5, 6] ! i"
    and b: "\<forall>i<BUFFER_FRAMES. 2 \<le> i \<longrightarrow> gChannelBuffers s' ! 3 ! i = gChannelBuffers ?s ! 3 ! i"
    by blast
  from a have "gChannelBuffers s' ! 3 ! 0 = 5" "gChannelBuffers s' ! 3 ! 1 = 6" by simp_all
  moreover from b h(5) have "gChannelBuffers s' ! 3 ! 2 = gChannelBuffers ?s ! 3 ! 2" by simp
  then have "gChannelBuffers s' ! 3 ! 2 = 0"
    by (simp add: registered_initial(4)) (simp add: MAX_CHANNELS_def BUFFER_FRAMES_def)
  ultimately show ?thesis using h r by blast
qed

lemma run_step: "step x s = Inr s' \<Longrightarrow> run (x # xs) s = run xs s'"
  by simp

text \<open>
  C3 as stated fails: after process \<open>1\<close> on channel \<open>0\<close> deposits \<open>[1, 1]\<close> and then
  \<open>[2]\<close>, sample \<open>1\<close> of channel \<open>0\<close> is still \<open>1\<close>, not zero.
\<close>

theorem short_deposit_counterexample:
  "channel_sample 0 1
     (run [DoRegister 1 0, DoDeposit 1 [1, 1] 2, DoDeposit 1 [2] 1]
        (initial_driver :: real driver)) = Some 1"
proof -
  let ?s1 = "MapPIDToChannel 1 0 (initial_driver :: real driver)"
  let ?B = "replicate MAX_CHANNELS (replicate BUFFER_FRAMES (0::real))"
  let ?s2 = "?s1\<lparr>gChannelBuffers := ?B[0 := [1, 1] @ drop 2 (?B ! 0)]\<rparr>"
  let ?s3 = "?s2\<lparr>gChannelBuffers :=
      (gChannelBuffers ?s2)[0 := [2] @ drop 1 (gChannelBuffers ?s2 ! 0)]\<rparr>"
  have f1: "find_channel 1 (used ?s1) = int 0" by (simp add: registered_initial)
  have m: "0 < MAX_CHANNELS" by (simp add: MAX_CHANNELS_def)
  have c2: "clamp_frames 2 = 2" and c1: "clamp_frames 1 = 1"
    by (simp_all add: clamp_frames_def BUFFER_FRAMES_def)
  have r2: "RouteAudioToChannel 1 [1, 1] 2 ?s1 = Inr ?s2"
    using Route_stored [OF f1 m, of 2 "[1, 1]"] by (simp add: c2 registered_initial(4))
  have "used ?s2 = used ?s1" by (simp add: used_def)
  with f1 have f2: "find_channel 1 (used ?s2) = int 0" by simp
  have r3: "RouteAudioToChannel 1 [2] 1 ?s2 = Inr ?s3"
    using Route_stored [OF f2 m, of 1 "[2]"] by (simp add: c1)
  have "run [DoRegister 1 0, DoDeposit 1 [1, 1] 2, DoDeposit 1 [2] 1]
          (initial_driver :: real driver)
        = run [DoDeposit 1 [1, 1] 2, DoDeposit 1 [2] 1] ?s1"
    by (rule run_step) (simp only: step.simps)
  also have "\<dots> = run [DoDeposit 1 [2] 1] ?s2"
    by (rule run_step) (simp only: step.simps r2)
  also have "\<dots> = run [] ?s3"
    by (rule run_step) (simp only: step.simps r3)
  finally have "run [DoRegister 1 0, DoDeposit 1 [1, 1] 2, DoDeposit 1 [2] 1]
          (initial_driver :: real driver) = Inr ?s3"
    by (simp only: run.simps)
  moreover have "gChannelBuffers ?s3 ! 0 ! 1 = 1"
    using m by (simp add: nth_append)
  ultimately show ?thesis by (simp only: channel_sample_def sum.case)
qed

lemma clamp_frames_large: "int BUFFER_FRAMES < N \<Longrightarrow> clamp_frames N = BUFFER_FRAMES"
  by (simp add: clamp_frames_def)

text \<open>
  C5. A deposit with a frame count above \<open>BUFFER_FRAMES\<close>, by a process routed to a
  channel in range, from a chunk that has those samples, stores exactly the first
  \<open>BUFFER_FRAMES\<close> samples of the chunk as that channel's buffer and touches no other
  channel. The state it leaves is the same for every chunk with these first
  \<open>BUFFER_FRAMES\<close> samples and every such frame count: the samples beyond cannot show
  in anything the driver does later, a Produce included.
\<close>

theorem long_deposit_clamped:
  assumes "bank_ok s" and "find_channel p (used s) = int ch" and "ch < MAX_CHANNELS"
    and "int BUFFER_FRAMES < N" and "BUFFER_FRAMES \<le> length S"
  shows "\<exists>s'. RouteAudioToChannel p S N s = Inr s' \<and>
           gChannelBuffers s' ! ch = take BUFFER_FRAMES S \<and>
           (\<forall>c<MAX_CHANNELS. c \<noteq> ch \<longrightarrow> gChannelBuffers s' ! c = gChannelBuffers s ! c) \<and>
           (\<forall>S' N'. int BUFFER_FRAMES < N' \<and> BUFFER_FRAMES \<le> length S' \<and>
                take BUFFER_FRAMES S' = take BUFFER_FRAMES S \<longrightarrow>
              RouteAudioToChannel p S' N' s = Inr s')"
proof -
  from assms(1,3) have l: "ch < length (gChannelBuffers s)"
    and b: "length (gChannelBuffers s ! ch) = BUFFER_FRAMES"
    by (simp_all add: bank_ok_def list_all_length)
  have r: "RouteAudioToChannel p S' N' s =
      Inr (s\<lparr>gChannelBuffers := (gChannelBuffers s)[ch := take BUFFER_FRAMES S']\<rparr>)"
    if "int BUFFER_FRAMES < N'" "BUFFER_FRAMES \<le> length S'" for S' N'
    using Route_stored [OF assms(2,3), of N' S'] that b by (simp add: clamp_frames_large)
  from r [OF assms(4,5)] l have
    "RouteAudioToChannel p S N s =
       Inr (s\<lparr>gChannelBuffers := (gChannelBuffers s)[ch := take BUFFER_FRAMES S]\<rparr>)"
    "gChannelBuffers (s\<lparr>gChannelBuffers := (gChannelBuffers s)[ch := take BUFFER_FRAMES S]\<rparr>) ! ch
       = take BUFFER_FRAMES S"
    "\<forall>c<MAX_CHANNELS. c \<noteq> ch \<longrightarrow>
       gChannelBuffers (s\<lparr>gChannelBuffers := (gChannelBuffers s)[ch := take BUFFER_FRAMES S]\<rparr>) ! c
       = gChannelBuffers s ! c"
    by simp_all
  moreover have "\<forall>S' N'. int BUFFER_FRAMES < N' \<and> BUFFER_FRAMES \<le> length S' \<and>
                take BUFFER_FRAMES S' = take BUFFER_FRAMES S \<longrightarrow>
              RouteAudioToChannel p S' N' s =
                Inr (s\<lparr>gChannelBuffers := (gChannelBuffers s)[ch := take BUFFER_FRAMES S]\<rparr>)"
    using r by simp
  ultimately show ?thesis by blast
qed

theorem long_deposit_clamped_witness:
  "bank_ok (MapPIDToChannel 7 3 (initial_driver :: real driver)) \<and>
   find_channel 7 (used (MapPIDToChannel 7 3 (initial_driver :: real driver))) = int 3 \<and>
   3 < MAX_CHANNELS \<and> int BUFFER_FRAMES < 1026 \<and>
   BUFFER_FRAMES \<le> length (replicate BUFFER_FRAMES (1::real) @ [8, 9]) \<and>
   (\<exists>s'. RouteAudioToChannel 7 (replicate BUFFER_FRAMES 1 @ [8, 9]) 1026
            (MapPIDToChannel 7 3 (initial_driver :: real driver)) = Inr s' \<and>
         gChannelBuffers s' ! 3 = replicate BUFFER_FRAMES 1 \<and>
         RouteAudioToChannel 7 (replicate BUFFER_FRAMES 1 @ [4]) 1025
            (MapPIDToChannel 7 3 (initial_driver :: real driver)) = Inr s')"
proof -
  let ?s = "MapPIDToChannel 7 3 (initial_driver :: real driver)"
  let ?S = "replicate BUFFER_FRAMES (1::real) @ [8, 9]"
  have h: "bank_ok ?s" "find_channel 7 (used ?s) = int 3" "3 < MAX_CHANNELS"
    "int BUFFER_FRAMES < 1026" "BUFFER_FRAMES \<le> length ?S"
    by (simp_all add: registered_initial MAX_CHANNELS_def BUFFER_FRAMES_def)
  from long_deposit_clamped [OF h] obtain s' where
    r: "RouteAudioToChannel 7 ?S 1026 ?s = Inr s'"
    and a: "gChannelBuffers s' ! 3 = take BUFFER_FRAMES ?S"
    and b: "\<forall>S' N'. int BUFFER_FRAMES < N' \<and> BUFFER_FRAMES \<le> length S' \<and>
                take BUFFER_FRAMES S' = take BUFFER_FRAMES ?S \<longrightarrow>
              RouteAudioToChannel 7 S' N' ?s = Inr s'"
    by blast
  have "int BUFFER_FRAMES < 1025 \<and>
      BUFFER_FRAMES \<le> length (replicate BUFFER_FRAMES (1::real) @ [4]) \<and>
      take BUFFER_FRAMES (replicate BUFFER_FRAMES (1::real) @ [4]) = take BUFFER_FRAMES ?S"
    by (simp add: BUFFER_FRAMES_def)
  with b have "RouteAudioToChannel 7 (replicate BUFFER_FRAMES 1 @ [4]) 1025 ?s = Inr s'"
    by blast
  moreover from a have "gChannelBuffers s' ! 3 = replicate BUFFER_FRAMES 1" by simp
  ultimately show ?thesis using h r by blast
qed

subsection \<open>Channels out of range\<close>

lemma run_fixed: "(\<And>x. x \<in> set xs \<Longrightarrow> step x s = Inr s) \<Longrightarrow> run xs s = Inr s"
  by (induction xs) simp_all

text \<open>
  C10. \<open>MapPIDToChannel\<close> stores a channel outside \<open>[0, MAX_CHANNELS)\<close> as it is given
  (when the process has a slot or a slot is free, the routing scan then finds that very
  channel). After such a registration every deposit by the process, and every sequence
  of them, returns without a fault and leaves the whole state as it is: the index never
  reaches the bank.
\<close>

theorem out_of_range_channel_never_written:
  fixes s :: "'a::{zero,plus} driver"
  assumes "table_ok s" and "c < 0 \<or> int MAX_CHANNELS \<le> c"
  shows "((p \<in> set (pids s) \<or> gMappingCount s < MAX_PID_MAPPINGS) \<longrightarrow>
            find_channel p (used (MapPIDToChannel p c s)) = c) \<and>
         RouteAudioToChannel p S N (MapPIDToChannel p c s) = Inr (MapPIDToChannel p c s) \<and>
         (\<forall>ds. run (map (\<lambda>(S, N). DoDeposit p S N) ds) (MapPIDToChannel p c s)
                 = Inr (MapPIDToChannel p c s))"
proof -
  let ?s = "MapPIDToChannel p c s"
  have f: "find_channel p (used ?s) = c \<or> find_channel p (used ?s) = - 1"
  proof (cases "p \<in> set (pids s) \<or> gMappingCount s < MAX_PID_MAPPINGS")
    case True
    then show ?thesis by (simp add: find_channel_MapPIDToChannel [OF assms(1)])
  next
    case False
    then have "?s = s" by (simp add: MapPIDToChannel_full)
    with False show ?thesis by (simp add: unrouted(1))
  qed
  with assms(2) have
    "\<not> (0 \<le> find_channel p (used ?s) \<and> find_channel p (used ?s) < int MAX_CHANNELS)"
    by auto
  then have d: "RouteAudioToChannel p S N ?s = Inr ?s" for S N by (rule Route_dropped)
  have "run (map (\<lambda>(S, N). DoDeposit p S N) ds) ?s = Inr ?s" for ds
    by (rule run_fixed) (auto simp: d)
  with d show ?thesis by (simp add: find_channel_MapPIDToChannel [OF assms(1)])
qed

theorem out_of_range_channel_never_written_witness:
  "table_ok (initial_driver :: real driver) \<and> ((16::int) < 0 \<or> int MAX_CHANNELS \<le> 16) \<and>
   (7 \<in> set (pids (initial_driver :: real driver)) \<or>
    gMappingCount (initial_driver :: real driver) < MAX_PID_MAPPINGS) \<and>
   find_channel 7 (used (MapPIDToChannel 7 16 (initial_driver :: real driver))) = 16 \<and>
   RouteAudioToChannel 7 [1, 2] 2 (MapPIDToChannel 7 16 (initial_driver :: real driver))
     = Inr (MapPIDToChannel 7 16 initial_driver)"
proof -
  have t: "table_ok (initial_driver :: real driver)" by (rule table_ok_initial)
  have c: "(16::int) < 0 \<or> int MAX_CHANNELS \<le> 16" by (simp add: MAX_CHANNELS_def)
  have i: "7 \<in> set (pids (initial_driver :: real driver)) \<or>
    gMappingCount (initial_driver :: real driver) < MAX_PID_MAPPINGS"
    by (simp add: count_initial MAX_PID_MAPPINGS_def)
  from out_of_range_channel_never_written [OF t c, of 7 "[1, 2]" 2] i t c
  show ?thesis by blast
qed

subsection \<open>Unregistering\<close>

lemma DoIO_bank:
  "gChannelBuffers s' = gChannelBuffers s \<Longrightarrow>
     PlugIn_DoIOOperation n out s' = PlugIn_DoIOOperation n out s"
  by (cases out) (simp_all add: PlugIn_DoIOOperation_def Let_def)


lemma DoIO_foldl:
  fixes s :: "'a::{zero,plus} driver"
  assumes "min n BUFFER_FRAMES \<le> length out"
  shows "\<exists>out'. PlugIn_DoIOOperation n (Some out) s = Inr (kAudioHardwareNoError, Some out') \<and>
           (\<forall>i<min n BUFFER_FRAMES.
              out' ! i = foldl (+) 0 (map (\<lambda>ch. gChannelBuffers s ! ch ! i) [0..<MAX_CHANNELS]))"
proof -
  have m: "min n BUFFER_FRAMES = framesToCopy n"
    by (simp add: framesToCopy_def min_def)
  with assms have le: "framesToCopy n \<le> length out" by simp
  show ?thesis
    unfolding m DoIO_Some [OF le] using le by (simp add: mixed_nth_foldl)
qed

text \<open>
  C8. \<open>UnmapPID\<close> never changes a channel buffer. So when a process routed to channel
  \<open>ch\<close> has deposited a chunk and is then unregistered, the buffer of \<open>ch\<close> still starts
  with the deposited samples, Produce returns what it returned before the
  unregistration, and each output sample is still the sum, taken in channel order from
  zero, over all channels of the bank as the deposit left it. No law of addition is
  assumed.
\<close>

theorem Unregister_keeps_buffers:
  fixes s :: "'a::{zero,plus} driver"
  assumes "bank_ok s" and "find_channel p (used s) = int ch" and "ch < MAX_CHANNELS"
    and "0 \<le> N" and "clamp_frames N \<le> length S"
  shows "(\<forall>(t :: 'a driver) q. gChannelBuffers (UnmapPID q t) = gChannelBuffers t) \<and>
         (\<exists>s'. RouteAudioToChannel p S N s = Inr s' \<and>
            take (clamp_frames N) (gChannelBuffers (UnmapPID p s') ! ch) = take (clamp_frames N) S \<and>
            gChannelBuffers (UnmapPID p s') = gChannelBuffers s' \<and>
            (\<forall>n out. PlugIn_DoIOOperation n out (UnmapPID p s') = PlugIn_DoIOOperation n out s') \<and>
            (\<forall>n out. min n BUFFER_FRAMES \<le> length out \<longrightarrow>
               (\<exists>out'. PlugIn_DoIOOperation n (Some out) (UnmapPID p s')
                         = Inr (kAudioHardwareNoError, Some out') \<and>
                  (\<forall>i<min n BUFFER_FRAMES.
                     out' ! i = foldl (+) 0
                       (map (\<lambda>c. gChannelBuffers s' ! c ! i) [0..<MAX_CHANNELS])))))"
proof -
  let ?k = "clamp_frames N"
  let ?s' = "s\<lparr>gChannelBuffers := (gChannelBuffers s)
            [ch := take ?k S @ drop ?k (gChannelBuffers s ! ch)]\<rparr>"
  from assms(1,3) have l: "ch < length (gChannelBuffers s)"
    by (simp add: bank_ok_def)
  have r: "RouteAudioToChannel p S N s = Inr ?s'"
    by (rule Route_stored [OF assms(2-5)])
  have u: "gChannelBuffers (UnmapPID q t) = gChannelBuffers t" for q and t :: "'a driver"
    by (rule bank_UnmapPID)
  have io: "PlugIn_DoIOOperation n out (UnmapPID p ?s') = PlugIn_DoIOOperation n out ?s'" for n out
    by (rule DoIO_bank) (rule u)
  have t: "take ?k (gChannelBuffers (UnmapPID p ?s') ! ch) = take ?k S"
    using l assms(5) by (simp add: u)
  have "\<exists>out'. PlugIn_DoIOOperation n (Some out) (UnmapPID p ?s')
                         = Inr (kAudioHardwareNoError, Some out') \<and>
                  (\<forall>i<min n BUFFER_FRAMES.
                     out' ! i = foldl (+) 0
                       (map (\<lambda>c. gChannelBuffers ?s' ! c ! i) [0..<MAX_CHANNELS]))"
    if "min n BUFFER_FRAMES \<le> length out" for n out
    unfolding io by (rule DoIO_foldl [OF that])
  with r u io t show ?thesis by blast
qed

theorem Unregister_keeps_buffers_witness:
  "bank_ok (MapPIDToChannel 7 3 (initial_driver :: real driver)) \<and>
   find_channel 7 (used (MapPIDToChannel 7 3 (initial_driver :: real driver))) = int 3 \<and>
   3 < MAX_CHANNELS \<and> (0::int) \<le> 2 \<and> clamp_frames 2 \<le> length [5, 6 :: real] \<and>
   (\<exists>s'. RouteAudioToChannel 7 [5, 6] 2 (MapPIDToChannel 7 3 (initial_driver :: real driver))
            = Inr s' \<and>
         take 2 (gChannelBuffers (UnmapPID 7 s') ! 3) = [5, 6] \<and>
         min 1 BUFFER_FRAMES \<le> length [0 :: real] \<and>
         (\<exists>out'. PlugIn_DoIOOperation 1 (Some [0]) (UnmapPID 7 s')
                    = Inr (kAudioHardwareNoError, Some out') \<and>
                 out' ! 0 = 5))"
proof -
  let ?s = "MapPIDToChannel 7 3 (initial_driver :: real driver)"
  let ?B = "replicate MAX_CHANNELS (replicate BUFFER_FRAMES (0::real))"
  let ?b = "[5, 6] @ drop 2 (?B ! 3)"
  have c: "clamp_frames 2 = 2" by (simp add: clamp_frames_def BUFFER_FRAMES_def)
  have h: "bank_ok ?s" "find_channel 7 (used ?s) = int 3" "3 < MAX_CHANNELS"
    "(0::int) \<le> 2" "clamp_frames 2 \<le> length [5, 6 :: real]"
    by (simp_all add: registered_initial MAX_CHANNELS_def c)
  have m: "min 1 BUFFER_FRAMES \<le> length [0 :: real]" by simp
  from Unregister_keeps_buffers [OF h] obtain s' where
    r: "RouteAudioToChannel 7 [5, 6] 2 ?s = Inr s'"
    and t: "take (clamp_frames 2) (gChannelBuffers (UnmapPID 7 s') ! 3) = take (clamp_frames 2) [5, 6]"
    and p: "\<forall>n out. min n BUFFER_FRAMES \<le> length out \<longrightarrow>
               (\<exists>out'. PlugIn_DoIOOperation n (Some out) (UnmapPID 7 s')
                         = Inr (kAudioHardwareNoError, Some out') \<and>
                  (\<forall>i<min n BUFFER_FRAMES.
                     out' ! i = foldl (+) 0
                       (map (\<lambda>c. gChannelBuffers s' ! c ! i) [0..<MAX_CHANNELS])))"
    by blast
  from p m obtain out' where
    o: "PlugIn_DoIOOperation 1 (Some [0]) (UnmapPID 7 s') = Inr (kAudioHardwareNoError, Some out')"
    and e: "\<forall>i<min 1 BUFFER_FRAMES.
              out' ! i = foldl (+) 0 (map (\<lambda>c. gChannelBuffers s' ! c ! i) [0..<MAX_CHANNELS])"
    by blast
  have "RouteAudioToChannel 7 [5, 6] 2 ?s = Inr (?s\<lparr>gChannelBuffers := ?B[3 := ?b]\<rparr>)"
    using Route_stored [OF h(2,3,4,5)] by (simp add: c registered_initial(4))
  with r have b: "gChannelBuffers s' = ?B[3 := ?b]" by auto
  have z: "(0::nat) < BUFFER_FRAMES" by (simp add: BUFFER_FRAMES_def)
  have "foldl (+) 0 (map (\<lambda>c. gChannelBuffers s' ! c ! 0) [0..<MAX_CHANNELS]) = ?b ! 0"
    unfolding b by (rule one_channel_mixed [OF h(3) z])
  then have v: "foldl (+) 0 (map (\<lambda>c. gChannelBuffers s' ! c ! 0) [0..<MAX_CHANNELS]) = 5"
    by simp
  have "0 < min 1 BUFFER_FRAMES" by (simp add: BUFFER_FRAMES_def)
  with e v have "out' ! 0 = 5" by simp
  moreover from t have "take 2 (gChannelBuffers (UnmapPID 7 s') ! 3) = [5, 6]" by (simp add: c)
  ultimately show ?thesis using h r m o by blast
qed

subsection \<open>Two channels\<close>








end
